theory Spec2Isabelle
  imports
    Main
    "HOL-Library.Sublist"
    "HOL-Library.Char_ord"
    "HOL-Library.List_Lexorder"
    "HOL-Library.Multiset"
begin

section \<open>Strings\<close>

text \<open>
  A Python \<open>str\<close> is modelled as a \<open>string\<close>: every \<open>char\<close> stands for one code point
  below 256. Code points outside ASCII belong to none of the character classes of the
  e-mail pattern, which is all the program asks of them.
\<close>

definition is_letter :: "char \<Rightarrow> bool" where
  \<comment> \<open>the class \<open>[a-zA-Z]\<close>\<close>
  "is_letter c \<longleftrightarrow> (CHR ''a'' \<le> c \<and> c \<le> CHR ''z'') \<or> (CHR ''A'' \<le> c \<and> c \<le> CHR ''Z'')"

definition is_digit :: "char \<Rightarrow> bool" where
  \<comment> \<open>the class \<open>[0-9]\<close>\<close>
  "is_digit c \<longleftrightarrow> CHR ''0'' \<le> c \<and> c \<le> CHR ''9''"

definition local_char :: "char \<Rightarrow> bool" where
  \<comment> \<open>the class \<open>[a-zA-Z0-9._%+-]\<close>\<close>
  "local_char c \<longleftrightarrow> is_letter c \<or> is_digit c \<or> c \<in> set ''._%+-''"

definition domain_char :: "char \<Rightarrow> bool" where
  \<comment> \<open>the class \<open>[a-zA-Z0-9.-]\<close>\<close>
  "domain_char c \<longleftrightarrow> is_letter c \<or> is_digit c \<or> c \<in> set ''.-''"

definition is_space :: "char \<Rightarrow> bool" where
  \<comment> \<open>\<open>str.isspace\<close> on the code points below 256\<close>
  "is_space c \<longleftrightarrow> (of_char c :: nat) \<in> {9, 10, 11, 12, 13, 28, 29, 30, 31, 32, 133, 160}"

definition strip :: "string \<Rightarrow> string" where
  \<comment> \<open>\<open>str.strip()\<close>: whitespace removed at both ends\<close>
  "strip s = rev (dropWhile is_space (rev (dropWhile is_space s)))"

definition startswith :: "string \<Rightarrow> string \<Rightarrow> bool" where
  \<comment> \<open>\<open>s.startswith(p)\<close>\<close>
  "startswith s p \<longleftrightarrow> take (length p) s = p"

fun contains :: "string \<Rightarrow> string \<Rightarrow> bool" where
  \<comment> \<open>\<open>p in s\<close> on strings: \<open>p\<close> occurs in \<open>s\<close> as a contiguous substring\<close>
  "contains p [] \<longleftrightarrow> p = []"
| "contains p (c # cs) \<longleftrightarrow> startswith (c # cs) p \<or> contains p cs"

fun split_from :: "string \<Rightarrow> nat \<Rightarrow> string \<Rightarrow> string \<Rightarrow> string list" where
  \<comment> \<open>the scan of \<open>str.split(sep)\<close>: \<open>skip\<close> characters of a separator just matched are
      still to be passed over, \<open>cur\<close> is the piece being collected\<close>
  "split_from sep skip cur [] = [cur]"
| "split_from sep (Suc k) cur (c # cs) = split_from sep k cur cs"
| "split_from sep 0 cur (c # cs) =
     (if startswith (c # cs) sep then cur # split_from sep (length sep - 1) [] cs
      else split_from sep 0 (cur @ [c]) cs)"

definition split :: "string \<Rightarrow> string \<Rightarrow> string list" where
  \<comment> \<open>\<open>s.split(sep)\<close> for a non-empty separator (the program only splits at
      \<open>"//"\<close> and \<open>"/"\<close>): the pieces between the occurrences of \<open>sep\<close>, found from
      left to right without overlap\<close>
  "split s sep = split_from sep 0 [] s"

section \<open>The e-mail pattern\<close>

text \<open>
  \<open>extract_emails\<close> is \<open>re.findall\<close> with the pattern
  \<^verbatim>\<open>[a-zA-Z0-9._%+-]+@[a-zA-Z0-9.-]+\.[a-zA-Z]{2,}\<close>.
  The matcher below is the backtracking search of that pattern from one start position.
  The first group is greedy and \<open>@\<close> is not in its class, so only its longest run can be
  followed by \<open>@\<close>. The second group is greedy too and its class contains the dot: the
  search tries its longest run first and gives characters back one at a time until a dot
  and two letters follow. The last group takes every letter it can.
\<close>

definition match_tld :: "string \<Rightarrow> string option" where
  \<comment> \<open>\<^verbatim>\<open>\.[a-zA-Z]{2,}\<close> at the head of the text\<close>
  "match_tld r =
     (case r of
        [] \<Rightarrow> None
      | c # t \<Rightarrow>
          if c = CHR ''.'' \<and> 2 \<le> length (takeWhile is_letter t)
          then Some (takeWhile is_letter t) else None)"

fun backtrack_domain :: "nat \<Rightarrow> string \<Rightarrow> string option" where
  \<comment> \<open>the second group takes \<open>k\<close> characters, then \<open>k - 1\<close>, ... down to one\<close>
  "backtrack_domain 0 r = None"
| "backtrack_domain (Suc k) r =
     (case match_tld (drop (Suc k) r) of
        Some t \<Rightarrow> Some (take (Suc k) r @ ''.'' @ t)
      | None \<Rightarrow> backtrack_domain k r)"

definition match_email :: "string \<Rightarrow> string option" where
  \<comment> \<open>the match of the whole pattern that starts at the head of the text, if any\<close>
  "match_email s =
     (let lp = takeWhile local_char s in
      if lp = [] then None
      else case dropWhile local_char s of
        [] \<Rightarrow> None
      | c # r \<Rightarrow>
          if c \<noteq> CHR ''@'' then None
          else case backtrack_domain (length (takeWhile domain_char r)) r of
            None \<Rightarrow> None
          | Some d \<Rightarrow> Some (lp @ ''@'' @ d))"

fun findall :: "nat \<Rightarrow> string \<Rightarrow> string list" where
  \<comment> \<open>the scan of \<open>re.findall\<close>: matches are taken from left to right and do not
      overlap; \<open>skip\<close> characters of the last match are still to be passed over\<close>
  "findall skip [] = []"
| "findall (Suc k) (c # cs) = findall k cs"
| "findall 0 (c # cs) =
     (case match_email (c # cs) of
        Some m \<Rightarrow> m # findall (length m - 1) cs
      | None \<Rightarrow> findall 0 cs)"

definition extract_emails :: "string \<Rightarrow> string list" where
  "extract_emails text = findall 0 text"

section \<open>The rendering capability and the program state\<close>

text \<open>
  The browser is outside the program. A navigation of a session to a URL either renders
  a page, raises a \<open>WebDriverException\<close>, or raises some other exception, which the
  handlers of \<open>scrape_page\<close> and \<open>get_child_links\<close> do not catch. The world fixes
  the outcome for every URL, and the time at which the task of a child link completes.
\<close>

record page =
  page_source :: string
  hrefs :: "string option list"
    \<comment> \<open>the \<open>href\<close> attribute of every \<open>a\<close> element, \<open>None\<close> where it is absent\<close>

datatype nav = Rendered page | WebDriverException | OtherException

record world =
  respond :: "string \<Rightarrow> nav"
  finish_time :: "string \<Rightarrow> nat"

datatype error = IndexError | Uncaught

text \<open>
  The module-level variables, and a log of what was asked of the browser: the number of
  sessions created (a session is named by its number), every \<open>driver.get\<close> with its
  session, and every \<open>driver.quit\<close>.
\<close>

record state =
  all_emails :: "string set"
  visited_links :: "string set"
  child_links_all :: "string list"
  opened :: nat
  nav_log :: "(nat \<times> string) list"
  quit_log :: "nat list"

definition init_state :: state where
  "init_state =
     \<lparr>all_emails = {}, visited_links = {}, child_links_all = [],
      opened = 0, nav_log = [], quit_log = []\<rparr>"

definition create_driver :: "state \<Rightarrow> nat \<times> state" where
  "create_driver st = (opened st, st\<lparr>opened := Suc (opened st)\<rparr>)"

definition driver_get :: "world \<Rightarrow> nat \<Rightarrow> string \<Rightarrow> state \<Rightarrow> nav \<times> state" where
  "driver_get w driver url st = (respond w url, st\<lparr>nav_log := nav_log st @ [(driver, url)]\<rparr>)"

definition driver_quit :: "nat \<Rightarrow> state \<Rightarrow> state" where
  "driver_quit driver st = st\<lparr>quit_log := quit_log st @ [driver]\<rparr>"

section \<open>Helpers\<close>

fun collect_links :: "string \<Rightarrow> string \<Rightarrow> string option list \<Rightarrow> string set \<Rightarrow> string set" where
  \<comment> \<open>the loop over the \<open>a\<close> elements; \<open>if href\<close> rejects \<open>None\<close> and the empty string\<close>
  "collect_links url parent_domain [] links = links"
| "collect_links url parent_domain (a # as) links =
     collect_links url parent_domain as
       (case a of
          None \<Rightarrow> links
        | Some href \<Rightarrow>
            if href \<noteq> [] \<and> contains parent_domain href \<and> href \<noteq> url
            then insert href links else links)"

text \<open>
  Python leaves the order of \<open>list(links)\<close> open; the model lists a set in increasing
  order. The claims below speak of the elements of such a list, not of their order.
\<close>

definition get_child_links ::
  "world \<Rightarrow> nat \<Rightarrow> string \<Rightarrow> string \<Rightarrow> state \<Rightarrow> (error + string list) \<times> state" where
  "get_child_links w driver url parent_domain st =
     (case driver_get w driver url st of
        (Rendered pg, st') \<Rightarrow>
          (Inr (sorted_list_of_set (collect_links url parent_domain (hrefs pg) {})), st')
      | (WebDriverException, st') \<Rightarrow> (Inr [], st')
      | (OtherException, st') \<Rightarrow> (Inl Uncaught, st'))"

definition scrape_page :: "world \<Rightarrow> nat \<Rightarrow> string \<Rightarrow> state \<Rightarrow> (error + string list) \<times> state" where
  "scrape_page w driver url st =
     (case driver_get w driver url st of
        (Rendered pg, st') \<Rightarrow> (Inr (extract_emails (page_source pg)), st')
      | (WebDriverException, st') \<Rightarrow> (Inr [], st')
      | (OtherException, st') \<Rightarrow> (Inl Uncaught, st'))"

definition scrape_worker :: "world \<Rightarrow> string \<Rightarrow> state \<Rightarrow> (error + string list) \<times> state" where
  "scrape_worker w url st =
     (case create_driver st of
        (driver, st1) \<Rightarrow>
          (case scrape_page w driver url st1 of
             (Inl e, st2) \<Rightarrow> (Inl e, st2)
           | (Inr emails, st2) \<Rightarrow> (Inr emails, driver_quit driver st2)))"

section \<open>Main\<close>

definition load_parent_urls :: "string list \<Rightarrow> string list" where
  \<comment> \<open>the lines of the input file, stripped, the empty ones dropped\<close>
  "load_parent_urls lines = filter (\<lambda>line. line \<noteq> []) (map strip lines)"

definition normalize_seed :: "string \<Rightarrow> string" where
  "normalize_seed parent_url =
     (if \<not> startswith parent_url ''http'' then ''http://'' @ parent_url else parent_url)"

definition parent_domain_of :: "string \<Rightarrow> error + string" where
  \<comment> \<open>\<open>parent_url.split("//")[1].split("/")[0]\<close>\<close>
  "parent_domain_of parent_url =
     (case split parent_url ''//'' of
        _ # host_path # _ \<Rightarrow>
          (case split host_path ''/'' of
             [] \<Rightarrow> Inl IndexError
           | host # _ \<Rightarrow> Inr host)
      | _ \<Rightarrow> Inl IndexError)"

definition update_emails :: "string list \<Rightarrow> state \<Rightarrow> state" where
  \<comment> \<open>\<open>if emails: all_emails.update(emails)\<close>\<close>
  "update_emails emails st =
     (if emails \<noteq> [] then st\<lparr>all_emails := all_emails st \<union> set emails\<rparr> else st)"

definition seed_step :: "world \<Rightarrow> string \<Rightarrow> state \<Rightarrow> error option \<times> state" where
  \<comment> \<open>the body of the loop over \<open>parent_urls\<close>\<close>
  "seed_step w line st =
     (let parent_url = normalize_seed line;
          st1 = st\<lparr>visited_links := insert parent_url (visited_links st)\<rparr>
      in case create_driver st1 of
        (driver, st2) \<Rightarrow>
          (case scrape_page w driver parent_url st2 of
             (Inl e, st3) \<Rightarrow> (Some e, st3)
           | (Inr emails, st3) \<Rightarrow>
               (let st4 = update_emails emails st3
                in case parent_domain_of parent_url of
                  Inl e \<Rightarrow> (Some e, st4)
                | Inr parent_domain \<Rightarrow>
                    (case get_child_links w driver parent_url parent_domain st4 of
                       (Inl e, st5) \<Rightarrow> (Some e, st5)
                     | (Inr child_links, st5) \<Rightarrow>
                         (None,
                          driver_quit driver
                            (st5\<lparr>child_links_all := child_links_all st5 @ child_links\<rparr>))))))"

fun seed_loop :: "world \<Rightarrow> string list \<Rightarrow> state \<Rightarrow> error option \<times> state" where
  "seed_loop w [] st = (None, st)"
| "seed_loop w (line # rest) st =
     (case seed_step w line st of
        (Some e, st') \<Rightarrow> (Some e, st')
      | (None, st') \<Rightarrow> seed_loop w rest st')"

definition remove_visited :: "state \<Rightarrow> state" where
  \<comment> \<open>\<open>[link for link in set(child_links_all) if link not in visited_links]\<close>\<close>
  "remove_visited st =
     st\<lparr>child_links_all :=
          filter (\<lambda>link. link \<notin> visited_links st)
            (sorted_list_of_set (set (child_links_all st)))\<rparr>"

text \<open>
  The pool runs one \<open>scrape_worker\<close> per child link, and the main thread takes the
  results as the tasks complete. A worker touches nothing but its own session, so the
  model runs each worker at the moment its result is taken.
\<close>

definition as_completed :: "world \<Rightarrow> string list \<Rightarrow> string list" where
  "as_completed w urls = sort_key (finish_time w) urls"

definition completion_step :: "world \<Rightarrow> string \<Rightarrow> state \<Rightarrow> state" where
  \<comment> \<open>\<open>future.result()\<close> and the merge; an exception of the worker is logged and dropped\<close>
  "completion_step w url st =
     (case scrape_worker w url st of
        (Inr emails, st') \<Rightarrow> update_emails emails st'
      | (Inl e, st') \<Rightarrow> st')"

definition merge_completed :: "world \<Rightarrow> string list \<Rightarrow> state \<Rightarrow> state" where
  "merge_completed w order st = fold (completion_step w) order st"

definition parallel_scraping :: "world \<Rightarrow> state \<Rightarrow> state" where
  "parallel_scraping w st = merge_completed w (as_completed w (child_links_all st)) st"

definition save_results :: "state \<Rightarrow> string list list" where
  \<comment> \<open>the rows handed to the CSV writer\<close>
  "save_results st = [''Email''] # map (\<lambda>email. [email]) (sorted_list_of_set (all_emails st))"

definition seed_phase :: "world \<Rightarrow> string list \<Rightarrow> error option \<times> state" where
  "seed_phase w lines = seed_loop w (load_parent_urls lines) init_state"

definition main :: "world \<Rightarrow> string list \<Rightarrow> (error + string list list) \<times> state" where
  \<comment> \<open>the whole run on the lines of the input file: the rows of the output file, or
      the exception that ended the run before the file was opened\<close>
  "main w lines =
     (case seed_phase w lines of
        (Some e, st) \<Rightarrow> (Inl e, st)
      | (None, st1) \<Rightarrow>
          (let st2 = parallel_scraping w (remove_visited st1)
           in (Inr (save_results st2), st2)))"

definition page_emails :: "world \<Rightarrow> string \<Rightarrow> string list" where
  \<comment> \<open>the e-mails extracted from the page at a URL; none when it does not render\<close>
  "page_emails w url =
     (case respond w url of Rendered pg \<Rightarrow> extract_emails (page_source pg) | _ \<Rightarrow> [])"

definition page_links :: "world \<Rightarrow> string \<Rightarrow> string \<Rightarrow> string list" where
  \<comment> \<open>the links that \<open>get_child_links\<close> finds on the page at a URL; none when it does
      not render\<close>
  "page_links w url parent_domain =
     (case respond w url of
        Rendered pg \<Rightarrow> sorted_list_of_set (collect_links url parent_domain (hrefs pg) {})
      | _ \<Rightarrow> [])"

section \<open>Predicates of the specification\<close>

definition email_shape :: "string \<Rightarrow> bool" where
  \<comment> \<open>the declared shape \<open>localpart@domain.tld\<close>\<close>
  "email_shape m \<longleftrightarrow>
     (\<exists>lp d t. m = lp @ ''@'' @ d @ ''.'' @ t
        \<and> lp \<noteq> [] \<and> (\<forall>c \<in> set lp. local_char c)
        \<and> d \<noteq> [] \<and> (\<forall>c \<in> set d. domain_char c)
        \<and> 2 \<le> length t \<and> (\<forall>c \<in> set t. is_letter c))"

section \<open>A small web for the examples\<close>

text \<open>
  Two seed pages link to each other and to the same team page; every other URL fails to
  load with a \<open>WebDriverException\<close>. The task of the team page completes first.
\<close>

definition example_home :: page where
  "example_home =
     \<lparr>page_source = ''Contact: a@example.com and b@EXAMPLE.com'',
      hrefs = [Some ''http://example.com/about'', None, Some [],
               Some ''http://example.com'', Some ''http://other.org/x'',
               Some ''http://example.com/team'', Some ''http://example.com/jobs'',
               Some ''http://example.com/team'']\<rparr>"

definition example_world :: world where
  "example_world =
     \<lparr>respond = (\<lambda>url.
        if url = ''http://example.com'' then Rendered example_home
        else if url = ''http://example.com/about'' then
          Rendered \<lparr>page_source = ''Press: A@example.com'',
                    hrefs = [Some ''http://example.com'', Some ''http://example.com/team'']\<rparr>
        else if url = ''http://example.com/team'' then
          Rendered \<lparr>page_source = ''c@example.com, a@example.com'',
                    hrefs = [Some ''http://example.com/deep'']\<rparr>
        else WebDriverException),
      finish_time = (\<lambda>url. if url = ''http://example.com/team'' then 0 else 1)\<rparr>"

definition example_lines :: "string list" where
  "example_lines = [''example.com'', '' '', '' http://example.com/about '']"

definition example_seeded :: state where
  \<comment> \<open>the state after the seed phase\<close>
  "example_seeded =
     \<lparr>all_emails = {''a@example.com'', ''b@EXAMPLE.com'', ''A@example.com''},
      visited_links = {''http://example.com'', ''http://example.com/about''},
      child_links_all = [''http://example.com/about'', ''http://example.com/jobs'',
                         ''http://example.com/team'', ''http://example.com'',
                         ''http://example.com/team''],
      opened = 2,
      nav_log = [(0, ''http://example.com''), (0, ''http://example.com''),
                 (1, ''http://example.com/about''), (1, ''http://example.com/about'')],
      quit_log = [0, 1]\<rparr>"

definition example_final :: state where
  \<comment> \<open>the state at the end of the run\<close>
  "example_final =
     \<lparr>all_emails = {''a@example.com'', ''b@EXAMPLE.com'', ''A@example.com'', ''c@example.com''},
      visited_links = {''http://example.com'', ''http://example.com/about''},
      child_links_all = [''http://example.com/jobs'', ''http://example.com/team''],
      opened = 4,
      nav_log = [(0, ''http://example.com''), (0, ''http://example.com''),
                 (1, ''http://example.com/about''), (1, ''http://example.com/about''),
                 (2, ''http://example.com/team''), (3, ''http://example.com/jobs'')],
      quit_log = [0, 1, 2, 3]\<rparr>"

definition example_rows :: "string list list" where
  "example_rows =
     [[''Email''], [''A@example.com''], [''a@example.com''], [''b@EXAMPLE.com''],
      [''c@example.com'']]"

definition crashing_world :: world where
  \<comment> \<open>a browser that dies on every navigation with an exception that is not a
      \<open>WebDriverException\<close>\<close>
  "crashing_world = \<lparr>respond = (\<lambda>url. OtherException), finish_time = (\<lambda>url. 0)\<rparr>"

section \<open>The pattern extractor\<close>

lemma match_tld_Some:
  "match_tld r = Some t \<Longrightarrow> 2 \<le> length t \<and> (\<forall>c \<in> set t. is_letter c)"
  by (auto simp: match_tld_def split: list.splits if_splits dest: set_takeWhileD)

lemma backtrack_domain_Some:
  "backtrack_domain k r = Some d \<Longrightarrow>
     \<exists>j t. 0 < j \<and> j \<le> k \<and> d = take j r @ ''.'' @ t \<and> match_tld (drop j r) = Some t"
proof (induction k)
  case 0
  then show ?case by simp
next
  case (Suc k)
  show ?case
  proof (cases "match_tld (drop (Suc k) r)")
    case None
    with Suc.prems have "backtrack_domain k r = Some d" by simp
    from Suc.IH [OF this] show ?thesis by (metis le_Suc_eq)
  next
    case (Some t)
    with Suc.prems have "d = take (Suc k) r @ ''.'' @ t" by simp
    with Some show ?thesis by blast
  qed
qed

lemma take_run_all:
  assumes "j \<le> length (takeWhile P xs)"
  shows "\<forall>c \<in> set (take j xs). P c"
proof -
  have "take j xs = take j (takeWhile P xs)"
    using assms by (metis takeWhile_dropWhile_id take_append diff_is_0_eq' take_0 append_Nil2)
  then show ?thesis by (auto dest!: in_set_takeD set_takeWhileD)
qed

lemma match_email_shape:
  assumes "match_email s = Some m"
  shows "email_shape m"
proof -
  let ?lp = "takeWhile local_char s"
  from assms have lp: "?lp \<noteq> []"
    by (auto simp: match_email_def Let_def split: if_splits)
  from assms lp obtain r d where
    d: "backtrack_domain (length (takeWhile domain_char r)) r = Some d" and m: "m = ?lp @ ''@'' @ d"
    by (auto simp: match_email_def Let_def split: if_splits list.splits option.splits)
  from backtrack_domain_Some [OF d] obtain j t where
    j: "0 < j" "j \<le> length (takeWhile domain_char r)" and dd: "d = take j r @ ''.'' @ t"
    and t: "match_tld (drop j r) = Some t" by blast
  have "take j r \<noteq> []"
    using j by (cases r) auto
  moreover have "\<forall>c \<in> set (take j r). domain_char c"
    using j(2) by (rule take_run_all)
  moreover have "\<forall>c \<in> set ?lp. local_char c"
    by (auto dest: set_takeWhileD)
  moreover note match_tld_Some [OF t] lp
  ultimately show ?thesis
    unfolding email_shape_def m dd by blast
qed

lemma findall_matches:
  "m \<in> set (findall k s) \<Longrightarrow> \<exists>u. match_email u = Some m"
  by (induction k s rule: findall.induct) (auto split: option.splits)

text \<open>A match is a piece of the text it was found in.\<close>

lemma match_tld_drop:
  "match_tld r = Some t \<Longrightarrow> \<exists>rest. r = ''.'' @ t @ rest"
  by (cases r) (auto simp: match_tld_def split: if_splits intro: takeWhile_dropWhile_id [symmetric])

lemma match_email_prefix:
  assumes "match_email s = Some m"
  shows "\<exists>rest. s = m @ rest"
proof -
  let ?lp = "takeWhile local_char s"
  from assms obtain r d where
    s: "dropWhile local_char s = CHR ''@'' # r"
    and d: "backtrack_domain (length (takeWhile domain_char r)) r = Some d"
    and m: "m = ?lp @ ''@'' @ d"
    by (auto simp: match_email_def Let_def split: if_splits list.splits option.splits)
  from backtrack_domain_Some [OF d] obtain j t where
    dd: "d = take j r @ ''.'' @ t" and t: "match_tld (drop j r) = Some t" by blast
  from match_tld_drop [OF t] obtain rest where "drop j r = ''.'' @ t @ rest" by blast
  then have "r = d @ rest"
    unfolding dd by (metis append.assoc append_take_drop_id)
  moreover have "s = ?lp @ dropWhile local_char s" by simp
  ultimately have "s = m @ rest" unfolding m s by simp
  then show ?thesis by blast
qed

lemma findall_suffix_matches:
  "m \<in> set (findall k s) \<Longrightarrow> \<exists>u. suffix u s \<and> match_email u = Some m"
proof (induction k s rule: findall.induct)
  case (1 skip)
  then show ?case by simp
next
  case (2 k c cs)
  then show ?case by (auto intro: suffix_ConsI)
next
  case (3 c cs)
  show ?case
  proof (cases "match_email (c # cs)")
    case None
    with 3 show ?thesis by (auto intro: suffix_ConsI)
  next
    case (Some m')
    with "3.prems" consider "m = m'" | "m \<in> set (findall (length m' - 1) cs)" by auto
    then show ?thesis
    proof cases
      case 1
      with Some show ?thesis by blast
    next
      case 2
      from "3.IH"(2) [OF Some 2] show ?thesis by (auto intro: suffix_ConsI)
    qed
  qed
qed

lemma extract_emails_substring:
  assumes "m \<in> set (extract_emails text)"
  shows "\<exists>a b. text = a @ m @ b"
proof -
  from assms obtain u where u: "suffix u text" and m: "match_email u = Some m"
    unfolding extract_emails_def by (blast dest: findall_suffix_matches)
  from u obtain a where "text = a @ u" by (auto simp: suffix_def)
  moreover from match_email_prefix [OF m] obtain b where "u = m @ b" by blast
  ultimately show ?thesis by blast
qed

text \<open>
  Claim C7. Whatever the text, every string that \<open>extract_emails\<close> returns has the shape
  \<open>localpart@domain.tld\<close>: a non-empty local part over letters, digits and \<open>._%+-\<close>, a
  non-empty domain over letters, digits and \<open>.-\<close>, and at least two letters after the
  last dot. The extractor is a total function into lists, defined by recursion on the
  text, so it returns a (possibly empty) sequence on every input.
\<close>

theorem extract_emails_shape:
  "\<forall>m \<in> set (extract_emails text). email_shape m"
  unfolding extract_emails_def using findall_matches match_email_shape by blast

theorem extract_emails_shape_witness:
  "extract_emails ''Contact: a@example.com or b-c@x.co.u'' = [''a@example.com'', ''b-c@x.co'']
   \<and> email_shape ''a@example.com'' \<and> email_shape ''b-c@x.co''"
proof -
  have e: "extract_emails ''Contact: a@example.com or b-c@x.co.u'' = [''a@example.com'', ''b-c@x.co'']"
    by code_simp
  from extract_emails_shape [of "''Contact: a@example.com or b-c@x.co.u''"] show ?thesis
    unfolding e by simp
qed

section \<open>Strings: substrings and splitting\<close>

lemma startswith_iff: "startswith s p \<longleftrightarrow> (\<exists>b. s = p @ b)"
  unfolding startswith_def
  by (metis append_eq_conv_conj append_take_drop_id)

lemma contains_iff: "contains p s \<longleftrightarrow> (\<exists>a b. s = a @ p @ b)"
proof (induction s)
  case Nil
  then show ?case by auto
next
  case (Cons c cs)
  show ?case
  proof
    assume "contains p (c # cs)"
    then consider "startswith (c # cs) p" | "contains p cs" by auto
    then show "\<exists>a b. c # cs = a @ p @ b"
    proof cases
      case 1
      then obtain b where "c # cs = p @ b" by (auto simp: startswith_iff)
      then have "c # cs = [] @ p @ b" by simp
      then show ?thesis by blast
    next
      case 2
      with Cons.IH obtain a b where "cs = a @ p @ b" by blast
      then have "c # cs = (c # a) @ p @ b" by simp
      then show ?thesis by blast
    qed
  next
    assume "\<exists>a b. c # cs = a @ p @ b"
    then obtain a b where ab: "c # cs = a @ p @ b" by blast
    show "contains p (c # cs)"
    proof (cases a)
      case Nil
      with ab have "startswith (c # cs) p" by (auto simp: startswith_iff)
      then show ?thesis by simp
    next
      case (Cons x a')
      with ab have "cs = a' @ p @ b" by simp
      with Cons.IH have "contains p cs" by blast
      then show ?thesis by simp
    qed
  qed
qed

lemma split_from_no_sep:
  "\<not> contains sep s \<Longrightarrow> split_from sep 0 cur s = [cur @ s]"
  by (induction s arbitrary: cur) auto

lemma split_from_not_Nil: "split_from sep k cur s \<noteq> []"
  by (induction sep k cur s rule: split_from.induct) auto

lemma parent_domain_of_no_sep:
  "\<not> contains ''//'' u \<Longrightarrow> parent_domain_of u = Inl IndexError"
  by (simp add: parent_domain_of_def split_def split_from_no_sep)

lemma split_http_prefix:
  "\<exists>p ps. split (''http://'' @ x) ''//'' = ''http:'' # p # ps"
proof -
  have "split (''http://'' @ x) ''//'' = ''http:'' # split_from ''//'' 0 [] x"
    by (simp add: split_def startswith_def)
  moreover obtain p ps where "split_from ''//'' 0 [] x = p # ps"
    using split_from_not_Nil [of "''//''" 0 "[]" x] by (cases "split_from ''//'' 0 [] x") auto
  ultimately show ?thesis by simp
qed

lemma parent_domain_of_prefixed:
  "\<exists>pd. parent_domain_of (''http://'' @ x) = Inr pd"
proof -
  obtain p ps where s: "split (''http://'' @ x) ''//'' = ''http:'' # p # ps"
    using split_http_prefix by blast
  obtain h hs where "split p ''/'' = h # hs"
    using split_from_not_Nil [of "''/''" 0 "[]" p] by (cases "split p ''/''") (auto simp: split_def)
  with s show ?thesis by (simp add: parent_domain_of_def)
qed

text \<open>
  A seed that does not start with \<open>http\<close> is prefixed, and the domain derivation then
  always finds its piece after \<open>//\<close>.
\<close>

lemma normalize_seed_repaired:
  "\<not> startswith line ''http'' \<Longrightarrow>
     normalize_seed line = ''http://'' @ line
     \<and> (\<exists>pd. parent_domain_of (normalize_seed line) = Inr pd)"
  using parent_domain_of_prefixed [of line] by (simp add: normalize_seed_def)

section \<open>What each helper does to the state\<close>

lemma update_emails_eq:
  "update_emails emails st = st\<lparr>all_emails := all_emails st \<union> set emails\<rparr>"
  by (simp add: update_emails_def)

lemma page_emails_Other: "respond w url = OtherException \<Longrightarrow> page_emails w url = []"
  by (simp add: page_emails_def)

lemma scrape_page_eq:
  "scrape_page w d url st =
     (if respond w url = OtherException then Inl Uncaught else Inr (page_emails w url),
      st\<lparr>nav_log := nav_log st @ [(d, url)]\<rparr>)"
  by (simp add: scrape_page_def driver_get_def page_emails_def split: nav.splits)

lemma get_child_links_eq:
  "get_child_links w d url pd st =
     (if respond w url = OtherException then Inl Uncaught else Inr (page_links w url pd),
      st\<lparr>nav_log := nav_log st @ [(d, url)]\<rparr>)"
  by (simp add: get_child_links_def driver_get_def page_links_def split: nav.splits)

lemma collect_links_eq:
  "collect_links url pd as links =
     links \<union> {h. Some h \<in> set as \<and> h \<noteq> [] \<and> contains pd h \<and> h \<noteq> url}"
  by (induction as arbitrary: links) (auto split: option.splits)

lemma finite_collect_links:
  "finite links \<Longrightarrow> finite (collect_links url pd as links)"
  by (induction as arbitrary: links) (auto split: option.splits)

lemma scrape_worker_eq:
  "scrape_worker w url st =
     (if respond w url = OtherException
      then (Inl Uncaught,
            st\<lparr>opened := Suc (opened st), nav_log := nav_log st @ [(opened st, url)]\<rparr>)
      else (Inr (page_emails w url),
            st\<lparr>opened := Suc (opened st), nav_log := nav_log st @ [(opened st, url)],
               quit_log := quit_log st @ [opened st]\<rparr>))"
  by (simp add: scrape_worker_def create_driver_def scrape_page_eq driver_quit_def)

lemma completion_step_eq:
  "completion_step w url st =
     st\<lparr>all_emails := all_emails st \<union> set (page_emails w url),
        opened := Suc (opened st),
        nav_log := nav_log st @ [(opened st, url)],
        quit_log := (if respond w url = OtherException then quit_log st
                     else quit_log st @ [opened st])\<rparr>"
  by (simp add: completion_step_def scrape_worker_eq update_emails_eq page_emails_Other)

lemma seed_step_eq:
  "seed_step w line st =
     (let u = normalize_seed line;
          st3 = st\<lparr>visited_links := insert u (visited_links st),
                   opened := Suc (opened st),
                   nav_log := nav_log st @ [(opened st, u)]\<rparr>
      in if respond w u = OtherException then (Some Uncaught, st3)
         else case parent_domain_of u of
           Inl e \<Rightarrow> (Some e, st3\<lparr>all_emails := all_emails st \<union> set (page_emails w u)\<rparr>)
         | Inr pd \<Rightarrow>
             (None,
              st3\<lparr>all_emails := all_emails st \<union> set (page_emails w u),
                  child_links_all := child_links_all st @ page_links w u pd,
                  nav_log := nav_log st @ [(opened st, u), (opened st, u)],
                  quit_log := quit_log st @ [opened st]\<rparr>))"
  by (simp add: seed_step_def Let_def create_driver_def scrape_page_eq get_child_links_eq
      update_emails_eq driver_quit_def split: sum.splits)

lemma seed_step_None:
  assumes "seed_step w line st = (None, st')"
  shows "respond w (normalize_seed line) \<noteq> OtherException"
    and "\<exists>pd. parent_domain_of (normalize_seed line) = Inr pd
           \<and> child_links_all st' = child_links_all st @ page_links w (normalize_seed line) pd"
    and "visited_links st' = insert (normalize_seed line) (visited_links st)"
    and "all_emails st' = all_emails st \<union> set (page_emails w (normalize_seed line))"
    and "opened st' = Suc (opened st)"
    and "nav_log st' =
           nav_log st @ [(opened st, normalize_seed line), (opened st, normalize_seed line)]"
    and "quit_log st' = quit_log st @ [opened st]"
  using assms by (auto simp: seed_step_eq Let_def split: if_splits sum.splits)

section \<open>The example run\<close>

lemma example_seed_step:
  "seed_step example_world ''example.com'' init_state =
     (None,
      \<lparr>all_emails = {''a@example.com'', ''b@EXAMPLE.com''},
       visited_links = {''http://example.com''},
       child_links_all = [''http://example.com/about'', ''http://example.com/jobs'',
                          ''http://example.com/team''],
       opened = 1,
       nav_log = [(0, ''http://example.com''), (0, ''http://example.com'')],
       quit_log = [0]\<rparr>)"
  by code_simp

lemma example_seed_phase: "seed_phase example_world example_lines = (None, example_seeded)"
  by code_simp

lemma example_run: "main example_world example_lines = (Inr example_rows, example_final)"
  by code_simp

section \<open>Child links of a page\<close>

text \<open>
  Claim C5. When the page at \<open>url\<close> renders, \<open>get_child_links\<close> returns a list without
  duplicates whose elements are exactly the \<open>href\<close> values of the page that are
  non-empty, contain \<open>parent_domain\<close> as a contiguous substring, and differ from \<open>url\<close>.
\<close>

theorem child_links_exact:
  assumes "respond w url = Rendered pg"
  shows "\<exists>links st'. get_child_links w driver url parent_domain st = (Inr links, st')
           \<and> set links = {href. Some href \<in> set (hrefs pg) \<and> href \<noteq> []
                              \<and> (\<exists>a b. href = a @ parent_domain @ b) \<and> href \<noteq> url}
           \<and> distinct links"
proof -
  let ?S = "collect_links url parent_domain (hrefs pg) {}"
  have "finite ?S" by (rule finite_collect_links) simp
  then have "set (sorted_list_of_set ?S) = ?S" by simp
  also have "?S = {href. Some href \<in> set (hrefs pg) \<and> href \<noteq> []
                              \<and> (\<exists>a b. href = a @ parent_domain @ b) \<and> href \<noteq> url}"
    unfolding collect_links_eq contains_iff by simp
  finally show ?thesis
    using assms by (simp add: get_child_links_eq page_links_def)
qed

theorem child_links_exact_witness:
  "respond example_world ''http://example.com'' = Rendered example_home
   \<and> fst (get_child_links example_world 0 ''http://example.com'' ''example.com'' init_state)
       = Inr [''http://example.com/about'', ''http://example.com/jobs'',
              ''http://example.com/team'']
   \<and> (\<exists>links st'.
         get_child_links example_world 0 ''http://example.com'' ''example.com'' init_state
           = (Inr links, st')
         \<and> set links = {href. Some href \<in> set (hrefs example_home) \<and> href \<noteq> []
                            \<and> (\<exists>a b. href = a @ ''example.com'' @ b)
                            \<and> href \<noteq> ''http://example.com''}
         \<and> distinct links)"
proof -
  have r: "respond example_world ''http://example.com'' = Rendered example_home"
    by (simp add: example_world_def)
  have e: "fst (get_child_links example_world 0 ''http://example.com'' ''example.com'' init_state)
       = Inr [''http://example.com/about'', ''http://example.com/jobs'',
              ''http://example.com/team'']"
    by code_simp
  from r e child_links_exact [OF r, of 0 "''example.com''" init_state] show ?thesis
    by (intro conjI)
qed

section \<open>One session per seed\<close>

text \<open>
  Claim C3, as the specification states it, fails: the links step does navigate the
  session to the seed URL again. In the example, session 0 receives two \<open>driver.get\<close>
  calls for the one seed.
\<close>

theorem seed_links_renavigate_counterexample:
  "nav_log (snd (seed_step example_world ''example.com'' init_state)) =
     [(0, ''http://example.com''), (0, ''http://example.com'')]"
  by code_simp

text \<open>
  Claim C3, amended. A seed step that runs to its end creates one session and navigates
  that same session to the normalized seed URL twice: once in \<open>scrape_page\<close> and once
  more in \<open>get_child_links\<close>.
\<close>

theorem seed_links_same_session:
  assumes "seed_step w line st = (None, st')"
  shows "opened st' = Suc (opened st)
       \<and> nav_log st' =
           nav_log st @ [(opened st, normalize_seed line), (opened st, normalize_seed line)]"
  using seed_step_None(5,6) [OF assms] by simp

theorem seed_links_same_session_witness:
  "seed_step example_world ''example.com'' init_state =
     (None, snd (seed_step example_world ''example.com'' init_state))
   \<and> opened (snd (seed_step example_world ''example.com'' init_state)) = Suc (opened init_state)
   \<and> nav_log (snd (seed_step example_world ''example.com'' init_state)) =
       nav_log init_state @ [(opened init_state, normalize_seed ''example.com''),
                             (opened init_state, normalize_seed ''example.com'')]"
proof -
  have s: "seed_step example_world ''example.com'' init_state =
     (None, snd (seed_step example_world ''example.com'' init_state))"
    by (simp add: example_seed_step)
  from s seed_links_same_session [OF s] show ?thesis by (intro conjI) simp_all
qed

section \<open>Release of sessions\<close>

text \<open>
  Claim C4, as the specification states it, fails: nothing releases a session when an
  exception leaves the code between \<open>create_driver\<close> and \<open>driver.quit\<close>. The seed
  \<open>httpexample.com\<close> ends its step with an \<open>IndexError\<close>, and a worker whose browser
  raises something other than a \<open>WebDriverException\<close> ends with that exception; in both
  cases one session was created and none was closed.
\<close>

theorem session_release_counterexample:
  "fst (seed_step example_world ''httpexample.com'' init_state) = Some IndexError
   \<and> opened (snd (seed_step example_world ''httpexample.com'' init_state)) = 1
   \<and> quit_log (snd (seed_step example_world ''httpexample.com'' init_state)) = []
   \<and> fst (scrape_worker crashing_world ''http://example.com/team'' init_state) = Inl Uncaught
   \<and> opened (snd (scrape_worker crashing_world ''http://example.com/team'' init_state)) = 1
   \<and> quit_log (snd (scrape_worker crashing_world ''http://example.com/team'' init_state)) = []"
  by code_simp

text \<open>
  Claim C4, amended. An invocation that creates a session and returns closes that
  session exactly once: a seed step that runs to its end, and a worker whose navigation
  renders the page or raises a \<open>WebDriverException\<close> (which \<open>scrape_page\<close> handles),
  create the session numbered \<open>opened st\<close> and add one \<open>quit\<close> of it to the log.
\<close>

theorem session_released_on_return:
  "(seed_step w line st = (None, st') \<longrightarrow>
      opened st' = Suc (opened st) \<and> quit_log st' = quit_log st @ [opened st])
   \<and> (respond w url \<noteq> OtherException \<longrightarrow>
        fst (scrape_worker w url st) = Inr (page_emails w url)
        \<and> opened (snd (scrape_worker w url st)) = Suc (opened st)
        \<and> quit_log (snd (scrape_worker w url st)) = quit_log st @ [opened st])"
proof (intro conjI impI)
  assume s: "seed_step w line st = (None, st')"
  show "opened st' = Suc (opened st)" by (rule seed_step_None(5) [OF s])
  show "quit_log st' = quit_log st @ [opened st]" by (rule seed_step_None(7) [OF s])
qed (simp_all add: scrape_worker_eq)

theorem session_released_on_return_witness:
  "quit_log (snd (seed_step example_world ''example.com'' init_state)) = [0]
   \<and> fst (scrape_worker example_world ''http://nowhere.test'' init_state) = Inr []
   \<and> quit_log (snd (scrape_worker example_world ''http://nowhere.test'' init_state)) = [0]"
proof -
  have r: "respond example_world ''http://nowhere.test'' \<noteq> OtherException"
    by (simp add: example_world_def)
  have p: "page_emails example_world ''http://nowhere.test'' = []"
    by (simp add: page_emails_def example_world_def)
  have s: "seed_step example_world ''example.com'' init_state =
      (None, snd (seed_step example_world ''example.com'' init_state))"
    by (simp add: example_seed_step)
  have i: "opened init_state = 0" "quit_log init_state = []"
    by (simp_all add: init_state_def)
  from session_released_on_return [of example_world "''example.com''" init_state
      "snd (seed_step example_world ''example.com'' init_state)" "''http://nowhere.test''"] s r
  show ?thesis
    unfolding p i by simp
qed

section \<open>Seeds without a scheme\<close>

text \<open>
  Claim C2 at the seed lines \<open>httpexample.com\<close> and \<open>httpbin.org\<close>. Each is a bare host:
  it has no scheme and no \<open>//\<close>. It starts with \<open>http\<close>, though, so the test of the
  source leaves it as it is; the domain derivation then finds no second piece and the
  seed step ends with an \<open>IndexError\<close>.
\<close>

theorem unrepaired_seed_example:
  "startswith ''httpexample.com'' ''http''
   \<and> \<not> contains ''//'' ''httpexample.com''
   \<and> normalize_seed ''httpexample.com'' = ''httpexample.com''
   \<and> parent_domain_of (normalize_seed ''httpexample.com'') = Inl IndexError
   \<and> fst (seed_step example_world ''httpexample.com'' init_state) = Some IndexError
   \<and> normalize_seed ''httpbin.org'' = ''httpbin.org''
   \<and> fst (seed_step example_world ''httpbin.org'' init_state) = Some IndexError
   \<and> fst (main example_world [''example.com'', ''httpbin.org'']) = Inl IndexError"
  by code_simp

lemma seed_step_unrepaired:
  assumes "startswith line ''http''" and "\<not> contains ''//'' line"
  shows "\<exists>e. fst (seed_step w line st) = Some e"
proof -
  from assms(1) have "normalize_seed line = line" by (simp add: normalize_seed_def)
  with assms(2) have "parent_domain_of (normalize_seed line) = Inl IndexError"
    by (simp add: parent_domain_of_no_sep)
  then show ?thesis by (simp add: seed_step_eq Let_def)
qed

lemma seed_loop_unrepaired:
  assumes "line \<in> set ls" and "startswith line ''http''" and "\<not> contains ''//'' line"
  shows "\<exists>e. fst (seed_loop w ls st) = Some e"
  using assms(1)
proof (induction ls arbitrary: st)
  case Nil
  then show ?case by simp
next
  case (Cons l ls)
  obtain r st1 where s: "seed_step w l st = (r, st1)" by (cases "seed_step w l st")
  show ?case
  proof (cases r)
    case (Some e)
    with s show ?thesis by simp
  next
    case None
    with s seed_step_unrepaired [OF assms(2,3), of w st] have "l \<noteq> line" by auto
    with Cons.prems have "line \<in> set ls" by simp
    from Cons.IH [OF this, of st1] s None show ?thesis by simp
  qed
qed

lemma seed_step_error:
  assumes "\<forall>u. respond w u \<noteq> OtherException" and "fst (seed_step w line st) = Some e"
  shows "e = IndexError"
proof -
  from assms(1) have "respond w (normalize_seed line) \<noteq> OtherException" by blast
  with assms(2) show ?thesis
    by (cases "parent_domain_of (normalize_seed line)")
       (auto simp: seed_step_eq Let_def parent_domain_of_def split: list.splits)
qed

lemma seed_loop_error:
  assumes "\<forall>u. respond w u \<noteq> OtherException"
  shows "fst (seed_loop w ls st) = Some e \<Longrightarrow> e = IndexError"
proof (induction ls arbitrary: st)
  case Nil
  then show ?case by simp
next
  case (Cons l ls)
  obtain r st1 where s: "seed_step w l st = (r, st1)" by (cases "seed_step w l st")
  show ?case
  proof (cases r)
    case (Some e')
    with s Cons.prems have "fst (seed_step w l st) = Some e" by simp
    then show ?thesis by (rule seed_step_error [OF assms])
  next
    case None
    with s Cons.prems have "fst (seed_loop w ls st1) = Some e" by simp
    then show ?thesis by (rule Cons.IH)
  qed
qed

text \<open>
  Claim C9. Whenever the input holds a seed line that starts with \<open>http\<close> and has no
  \<open>//\<close> in it (such as \<open>httpexample.com\<close>), the run ends with an exception in the seed
  phase and produces no output rows; unless the browser raised an exception of its own
  that nothing catches, that exception is the \<open>IndexError\<close> of the domain derivation.
\<close>

theorem unrepaired_seed_halts:
  assumes "line \<in> set (load_parent_urls lines)"
    and "startswith line ''http''" and "\<not> contains ''//'' line"
  shows "(\<exists>e. fst (main w lines) = Inl e)
       \<and> ((\<forall>u. respond w u \<noteq> OtherException) \<longrightarrow> fst (main w lines) = Inl IndexError)"
proof -
  from seed_loop_unrepaired [OF assms, of w init_state]
  obtain e where e: "fst (seed_phase w lines) = Some e"
    by (auto simp: seed_phase_def)
  then have m: "fst (main w lines) = Inl e"
    by (cases "seed_phase w lines") (simp add: main_def)
  have "e = IndexError" if "\<forall>u. respond w u \<noteq> OtherException"
    using seed_loop_error [OF that] e by (simp add: seed_phase_def)
  with m show ?thesis by auto
qed

theorem unrepaired_seed_halts_witness:
  "startswith ''httpexample.com'' ''http'' \<and> \<not> contains ''//'' ''httpexample.com''
   \<and> fst (main example_world [''example.com'', ''httpexample.com'']) = Inl IndexError"
proof -
  have l: "''httpexample.com'' \<in> set (load_parent_urls [''example.com'', ''httpexample.com''])"
    by code_simp
  have s: "startswith ''httpexample.com'' ''http''" by (simp add: startswith_def)
  have c: "\<not> contains ''//'' ''httpexample.com''" by (simp add: startswith_def)
  have r: "\<forall>u. respond example_world u \<noteq> OtherException" by (simp add: example_world_def)
  from unrepaired_seed_halts [OF l s c, of example_world] r s c show ?thesis by blast
qed

section \<open>The two loops\<close>

lemma seed_loop_visited:
  "seed_loop w ls st = (None, st') \<Longrightarrow>
     visited_links st' = visited_links st \<union> set (map normalize_seed ls)"
proof (induction ls arbitrary: st)
  case Nil
  then show ?case by simp
next
  case (Cons l ls)
  from Cons.prems obtain st1 where s: "seed_step w l st = (None, st1)"
    and r: "seed_loop w ls st1 = (None, st')"
    by (auto split: prod.splits option.splits)
  from Cons.IH [OF r] seed_step_None(3) [OF s] show ?case by auto
qed

lemma seed_loop_emails:
  "seed_loop w ls st = (None, st') \<Longrightarrow>
     all_emails st' = all_emails st \<union> (\<Union>u \<in> set (map normalize_seed ls). set (page_emails w u))"
proof (induction ls arbitrary: st)
  case Nil
  then show ?case by simp
next
  case (Cons l ls)
  from Cons.prems obtain st1 where s: "seed_step w l st = (None, st1)"
    and r: "seed_loop w ls st1 = (None, st')"
    by (auto split: prod.splits option.splits)
  from Cons.IH [OF r] seed_step_None(4) [OF s] show ?case by auto
qed

lemma seed_loop_finite:
  "seed_loop w ls st = (None, st') \<Longrightarrow> finite (all_emails st) \<Longrightarrow> finite (all_emails st')"
  by (drule seed_loop_emails) simp

lemma merge_completed_Cons:
  "merge_completed w (u # order) st = merge_completed w order (completion_step w u st)"
  by (simp add: merge_completed_def)

lemma merge_completed_emails:
  "all_emails (merge_completed w order st) =
     all_emails st \<union> (\<Union>u \<in> set order. set (page_emails w u))"
proof (induction order arbitrary: st)
  case Nil
  then show ?case by (simp add: merge_completed_def)
next
  case (Cons u order)
  show ?case
    unfolding merge_completed_Cons Cons.IH by (auto simp: completion_step_eq)
qed

lemma merge_completed_finite:
  "finite (all_emails st) \<Longrightarrow> finite (all_emails (merge_completed w order st))"
  by (simp add: merge_completed_emails)

lemma merge_completed_frame:
  "visited_links (merge_completed w order st) = visited_links st
   \<and> child_links_all (merge_completed w order st) = child_links_all st"
proof (induction order arbitrary: st)
  case Nil
  then show ?case by (simp add: merge_completed_def)
next
  case (Cons u order)
  have "visited_links (completion_step w u st) = visited_links st"
    and "child_links_all (completion_step w u st) = child_links_all st"
    by (simp_all add: completion_step_eq)
  with Cons.IH [of "completion_step w u st"] show ?case
    unfolding merge_completed_Cons by simp
qed

lemma merge_completed_nav:
  "map snd (nav_log (merge_completed w order st)) = map snd (nav_log st) @ order"
proof (induction order arbitrary: st)
  case Nil
  then show ?case by (simp add: merge_completed_def)
next
  case (Cons u order)
  show ?case
    unfolding merge_completed_Cons Cons.IH by (simp add: completion_step_eq)
qed

lemma merge_completed_fetched:
  "map snd (drop (length (nav_log st)) (nav_log (merge_completed w order st))) = order"
proof -
  have "map snd (drop (length (nav_log st)) (nav_log (merge_completed w order st)))
        = drop (length (map snd (nav_log st))) (map snd (nav_log (merge_completed w order st)))"
    by (simp add: drop_map)
  also have "\<dots> = order"
    unfolding merge_completed_nav by simp
  finally show ?thesis .
qed

lemma remove_visited_tasks:
  "set (child_links_all (remove_visited st)) = set (child_links_all st) - visited_links st"
  "distinct (child_links_all (remove_visited st))"
  by (auto simp: remove_visited_def)

lemma remove_visited_frame:
  "all_emails (remove_visited st) = all_emails st"
  "visited_links (remove_visited st) = visited_links st"
  "nav_log (remove_visited st) = nav_log st"
  by (simp_all add: remove_visited_def)

text \<open>
  The completion times of the world can put distinct tasks in any order, so a statement
  about every world is a statement about every schedule of the child tasks.
\<close>

lemma as_completed_mset: "mset (as_completed w urls) = mset urls"
  by (simp add: as_completed_def)

lemma index_distinct:
  assumes "distinct ys" and "i < length ys"
  shows "length (takeWhile (\<lambda>v. v \<noteq> ys ! i) ys) = i"
proof -
  have "takeWhile (\<lambda>v. v \<noteq> ys ! i) ys = take i ys"
  proof (rule takeWhile_eq_take_P_nth)
    fix k assume "k < i" "k < length ys"
    with assms show "ys ! k \<noteq> ys ! i" by (simp add: nth_eq_iff_index_eq)
  qed simp
  with assms(2) show ?thesis by simp
qed

lemma any_completion_order:
  assumes "distinct urls" and "mset order = mset urls"
  shows "\<exists>w'. respond w' = respond (w :: world) \<and> as_completed w' urls = order"
proof -
  define ft where "ft u = length (takeWhile (\<lambda>v. v \<noteq> u) order)" for u
  from assms have d: "distinct order" by (metis mset_eq_imp_distinct_iff)
  have ix: "ft (order ! i) = i" if "i < length order" for i
    unfolding ft_def using d that by (rule index_distinct)
  have m: "map ft order = [0..<length order]"
    by (rule nth_equalityI) (simp_all add: ix)
  have inj: "inj_on ft (set order)"
  proof (rule inj_onI)
    fix x y assume "x \<in> set order" "y \<in> set order" "ft x = ft y"
    then show "x = y" by (metis in_set_conv_nth ix)
  qed
  have s: "set order = set urls" using assms(2) by (rule mset_eq_setD)
  have "sort_key ft urls = order"
  proof (rule map_sorted_distinct_set_unique [of ft])
    show "inj_on ft (set (sort_key ft urls) \<union> set order)" using inj s by simp
    show "sorted (map ft (sort_key ft urls))" by simp
    show "distinct (map ft (sort_key ft urls))" using assms(1) inj s by (simp add: distinct_map)
    show "sorted (map ft order)" unfolding m by simp
    show "distinct (map ft order)" unfolding m by simp
    show "set (sort_key ft urls) = set order" using s by simp
  qed
  then have "as_completed (w\<lparr>finish_time := ft\<rparr>) urls = order"
    by (simp add: as_completed_def)
  moreover have "respond (w\<lparr>finish_time := ft\<rparr>) = respond w" by simp
  ultimately show ?thesis by blast
qed

text \<open>The seed phase asks the world for pages only, never for completion times.\<close>

lemma page_emails_cong: "respond w' = respond w \<Longrightarrow> page_emails w' = page_emails w"
  by (rule ext) (simp add: page_emails_def)

lemma page_links_cong: "respond w' = respond w \<Longrightarrow> page_links w' = page_links w"
  by (intro ext) (simp add: page_links_def)

lemma seed_step_cong:
  assumes "respond w' = respond w"
  shows "seed_step w' line st = seed_step w line st"
  unfolding seed_step_eq page_emails_cong [OF assms] page_links_cong [OF assms] assms ..

lemma seed_loop_cong:
  assumes "respond w' = respond w"
  shows "seed_loop w' ls st = seed_loop w ls st"
  by (induction ls arbitrary: st)
     (simp_all add: seed_step_cong [OF assms] split: prod.splits option.splits)

lemma main_Inr:
  assumes "main w lines = (Inr rows, st)"
  obtains st1 where "seed_phase w lines = (None, st1)"
    and "st = parallel_scraping w (remove_visited st1)"
    and "rows = save_results st"
  using assms by (auto simp: main_def Let_def split: prod.splits option.splits)

section \<open>The result of a run\<close>

text \<open>
  Claim C1. When a run reaches its end, the accumulated set is the union of the e-mails
  of every seed page (the visited set is exactly the set of normalized seeds) and of
  every child link that is not in the visited set; a page that fails to load adds
  nothing. The set does not depend on the order in which the child tasks complete:
  merging the results in any permutation of the tasks gives the same set, and so does
  a run in any world that differs in the completion times only.
\<close>

theorem final_emails_union:
  assumes "main w lines = (Inr rows, st)"
  shows "all_emails st =
           (\<Union>u \<in> visited_links st. set (page_emails w u))
           \<union> (\<Union>u \<in> set (child_links_all st). set (page_emails w u))
       \<and> visited_links st = set (map normalize_seed (load_parent_urls lines))
       \<and> set (child_links_all st) =
           set (child_links_all (snd (seed_phase w lines))) - visited_links st
       \<and> (\<forall>order. mset order = mset (child_links_all st) \<longrightarrow>
            all_emails (merge_completed w order (remove_visited (snd (seed_phase w lines))))
              = all_emails st)
       \<and> (\<forall>w'. respond w' = respond w \<longrightarrow> all_emails (snd (main w' lines)) = all_emails st)"
proof -
  from assms obtain st1 where sp: "seed_phase w lines = (None, st1)"
    and st: "st = parallel_scraping w (remove_visited st1)"
    by (rule main_Inr)
  let ?st2 = "remove_visited st1"
  let ?tasks = "child_links_all ?st2"
  from sp have loop: "seed_loop w (load_parent_urls lines) init_state = (None, st1)"
    by (simp add: seed_phase_def)
  have vis1: "visited_links st1 = set (map normalize_seed (load_parent_urls lines))"
    using seed_loop_visited [OF loop] by (simp add: init_state_def)
  have em1: "all_emails st1 = (\<Union>u \<in> visited_links st1. set (page_emails w u))"
    using seed_loop_emails [OF loop] unfolding vis1 by (simp add: init_state_def)
  have merged: "all_emails (merge_completed w' order ?st2) =
      (\<Union>u \<in> visited_links st1. set (page_emails w u))
      \<union> (\<Union>u \<in> set order. set (page_emails w u))"
    if "respond w' = respond w" for order w'
    unfolding merge_completed_emails remove_visited_frame
    using em1 by (simp add: page_emails_cong [OF that])
  have vis: "visited_links st = visited_links st1"
    unfolding st parallel_scraping_def by (simp add: merge_completed_frame remove_visited_frame)
  have tasks: "child_links_all st = ?tasks"
    unfolding st parallel_scraping_def by (simp add: merge_completed_frame)
  have sched: "all_emails (parallel_scraping w' ?st2) =
      (\<Union>u \<in> visited_links st1. set (page_emails w u))
      \<union> (\<Union>u \<in> set ?tasks. set (page_emails w u))"
    if "respond w' = respond w" for w'
    unfolding parallel_scraping_def merged [OF that] by (simp add: as_completed_def)
  have em: "all_emails st =
      (\<Union>u \<in> visited_links st1. set (page_emails w u))
      \<union> (\<Union>u \<in> set ?tasks. set (page_emails w u))"
    unfolding st by (rule sched) simp
  have perm: "all_emails (merge_completed w order ?st2) = all_emails st"
    if "mset order = mset (child_links_all st)" for order
  proof -
    from that have "set order = set ?tasks"
      unfolding tasks by (rule mset_eq_setD)
    then show ?thesis unfolding em by (simp add: merged)
  qed
  have other: "all_emails (snd (main w' lines)) = all_emails st"
    if r: "respond w' = respond w" for w'
  proof -
    have "seed_phase w' lines = (None, st1)"
      unfolding seed_phase_def seed_loop_cong [OF r] by (rule loop)
    then have "snd (main w' lines) = parallel_scraping w' ?st2"
      by (simp add: main_def Let_def)
    then show ?thesis unfolding em by (simp add: sched [OF r])
  qed
  have "set (child_links_all st) = set (child_links_all st1) - visited_links st"
    unfolding tasks vis by (rule remove_visited_tasks)
  with em vis vis1 tasks perm other sp show ?thesis by simp
qed

theorem final_emails_union_witness:
  "all_emails example_final =
     set (page_emails example_world ''http://example.com'')
     \<union> set (page_emails example_world ''http://example.com/about'')
     \<union> set (page_emails example_world ''http://example.com/jobs'')
     \<union> set (page_emails example_world ''http://example.com/team'')
   \<and> all_emails (merge_completed example_world
        [''http://example.com/jobs'', ''http://example.com/team'']
        (remove_visited (snd (seed_phase example_world example_lines)))) =
      all_emails example_final
   \<and> all_emails (merge_completed example_world
        [''http://example.com/team'', ''http://example.com/jobs'']
        (remove_visited (snd (seed_phase example_world example_lines)))) =
      all_emails example_final
   \<and> all_emails (snd (main (example_world\<lparr>finish_time := length\<rparr>) example_lines)) =
      all_emails example_final"
proof -
  have "mset [''http://example.com/jobs'', ''http://example.com/team''] =
      mset (child_links_all example_final)"
    and "mset [''http://example.com/team'', ''http://example.com/jobs''] =
      mset (child_links_all example_final)"
    and "respond (example_world\<lparr>finish_time := length\<rparr>) = respond example_world"
    by (simp_all add: example_final_def)
  with final_emails_union [OF example_run] show ?thesis
    by (auto simp: example_final_def)
qed

text \<open>
  Claim C6. In a run that reaches its end, the URLs fetched in the child phase (the
  navigations logged after the seed phase) are the child links collected by the seeds
  minus the visited set, each fetched once; the visited set holds every normalized seed,
  so no seed is fetched again, however many seeds link to it.
\<close>

theorem visited_never_refetched:
  assumes "main w lines = (Inr rows, st)"
  shows "set (map normalize_seed (load_parent_urls lines)) =
           visited_links (snd (seed_phase w lines))
       \<and> set (map snd (drop (length (nav_log (snd (seed_phase w lines)))) (nav_log st))) =
           set (child_links_all (snd (seed_phase w lines)))
             - visited_links (snd (seed_phase w lines))
       \<and> distinct (map snd (drop (length (nav_log (snd (seed_phase w lines)))) (nav_log st)))
       \<and> set (map snd (drop (length (nav_log (snd (seed_phase w lines)))) (nav_log st)))
           \<inter> visited_links (snd (seed_phase w lines)) = {}"
proof -
  from assms obtain st1 where sp: "seed_phase w lines = (None, st1)"
    and st: "st = parallel_scraping w (remove_visited st1)"
    by (rule main_Inr)
  let ?tasks = "child_links_all (remove_visited st1)"
  let ?fetched = "map snd (drop (length (nav_log st1)) (nav_log st))"
  from sp have loop: "seed_loop w (load_parent_urls lines) init_state = (None, st1)"
    by (simp add: seed_phase_def)
  have vis1: "visited_links st1 = set (map normalize_seed (load_parent_urls lines))"
    using seed_loop_visited [OF loop] by (simp add: init_state_def)
  have "?fetched = as_completed w ?tasks"
    using merge_completed_fetched [of "remove_visited st1" w "as_completed w ?tasks"]
    unfolding st parallel_scraping_def by (simp add: remove_visited_frame)
  then have f: "?fetched = sort_key (finish_time w) ?tasks"
    by (simp add: as_completed_def)
  have "set ?fetched = set (child_links_all st1) - visited_links st1"
    unfolding f by (simp add: remove_visited_tasks)
  moreover have "distinct ?fetched"
    unfolding f by (simp add: remove_visited_tasks)
  ultimately show ?thesis using vis1 sp by auto
qed

theorem visited_never_refetched_witness:
  "''http://example.com'' \<in> set (child_links_all example_seeded)
   \<and> ''http://example.com'' \<in> visited_links example_seeded
   \<and> map snd (drop 4 (nav_log example_final)) =
       [''http://example.com/team'', ''http://example.com/jobs'']
   \<and> set (map snd (drop 4 (nav_log example_final))) \<inter> visited_links example_seeded = {}"
proof -
  have a: "''http://example.com'' \<in> set (child_links_all example_seeded)"
    and b: "''http://example.com'' \<in> visited_links example_seeded"
    and c: "map snd (drop 4 (nav_log example_final)) =
       [''http://example.com/team'', ''http://example.com/jobs'']"
    and n: "length (nav_log example_seeded) = 4"
    by (simp_all add: example_seeded_def example_final_def)
  from visited_never_refetched [OF example_run]
  have "set (map snd (drop 4 (nav_log example_final))) \<inter> visited_links example_seeded = {}"
    unfolding example_seed_phase snd_conv n by blast
  with a b c show ?thesis by (intro conjI)
qed

text \<open>
  Claim C8. In a run that reaches its end, the rows written are the header row
  \<open>Email\<close> followed by one row per accumulated e-mail, in strictly increasing order of
  the strings (code point by code point), hence without duplicates; the e-mails written
  are exactly the accumulated set, so two addresses that differ only in case are two
  rows.
\<close>

theorem output_sorted:
  assumes "main w lines = (Inr rows, st)"
  shows "\<exists>emails. rows = [''Email''] # map (\<lambda>email. [email]) emails
           \<and> sorted_wrt (<) emails \<and> distinct emails \<and> set emails = all_emails st"
proof -
  from assms obtain st1 where sp: "seed_phase w lines = (None, st1)"
    and st: "st = parallel_scraping w (remove_visited st1)"
    and rows: "rows = save_results st"
    by (rule main_Inr)
  from sp have "finite (all_emails st1)"
    unfolding seed_phase_def by (rule seed_loop_finite) (simp add: init_state_def)
  then have fin: "finite (all_emails st)"
    unfolding st parallel_scraping_def by (simp add: merge_completed_finite remove_visited_frame)
  let ?es = "sorted_list_of_set (all_emails st)"
  have "rows = [''Email''] # map (\<lambda>email. [email]) ?es"
    by (simp add: rows save_results_def)
  moreover have "sorted_wrt (<) ?es" by (rule strict_sorted_list_of_set)
  moreover have "distinct ?es" by simp
  moreover have "set ?es = all_emails st" using fin by simp
  ultimately show ?thesis by blast
qed

theorem output_sorted_witness:
  "fst (main example_world example_lines) =
     Inr [[''Email''], [''A@example.com''], [''a@example.com''], [''b@EXAMPLE.com''],
          [''c@example.com'']]
   \<and> (\<exists>emails. example_rows = [''Email''] # map (\<lambda>email. [email]) emails
         \<and> sorted_wrt (<) emails \<and> distinct emails \<and> set emails = all_emails example_final)"
proof -
  have "fst (main example_world example_lines) =
     Inr [[''Email''], [''A@example.com''], [''a@example.com''], [''b@EXAMPLE.com''],
          [''c@example.com'']]"
    by (simp add: example_run example_rows_def)
  with output_sorted [OF example_run] show ?thesis by (intro conjI)
qed

section \<open>What a worker may change\<close>

text \<open>
  Claim C10. A worker leaves the e-mail set, the visited set and the list of child links
  as they were (it only creates, drives and closes its own session) and hands its
  e-mails back as its result. The step of the completion loop, which the main thread
  runs, is what adds that result to the e-mail set; it changes neither the visited set
  nor the list of child links, and so does the whole child phase.
\<close>

theorem worker_frame:
  "all_emails (snd (scrape_worker w url st)) = all_emails st
   \<and> visited_links (snd (scrape_worker w url st)) = visited_links st
   \<and> child_links_all (snd (scrape_worker w url st)) = child_links_all st
   \<and> all_emails (completion_step w url st) =
       all_emails st
       \<union> (case fst (scrape_worker w url st) of Inr emails \<Rightarrow> set emails | Inl e \<Rightarrow> {})
   \<and> visited_links (completion_step w url st) = visited_links st
   \<and> child_links_all (completion_step w url st) = child_links_all st
   \<and> visited_links (parallel_scraping w st) = visited_links st
   \<and> child_links_all (parallel_scraping w st) = child_links_all st"
  by (simp add: scrape_worker_eq completion_step_eq page_emails_Other parallel_scraping_def
      merge_completed_frame)

end
